theory Spec2Isabelle
  imports Main
begin

section \<open>The file explorer of Loong-Tu-Ge (src/components/FileExplorer.vue)\<close>

text \<open>
  The component keeps five reactive cells: the loaded file tree \<open>rootFiles\<close>, the
  navigation path \<open>currentPath\<close>, the search text \<open>searchQuery\<close>, and the two cells of
  the PDF preview. Two computed values (\<open>currentItems\<close>, \<open>filteredItems\<close>) are read
  from the cells, and three handlers (\<open>handleItemClick\<close>, \<open>goBack\<close>, \<open>navigateTo\<close>)
  write them. The cells are the fields of a record, the computed values are functions
  of the record, and a handler maps the record to the updated record.

  JavaScript strings are modelled as \<open>string\<close>; comparison with \<open>===\<close> is equality of
  the character sequences.
\<close>

subsection \<open>Data: \<open>interface FileNode\<close> and the reactive cells\<close>

datatype node_type = Directory | File

text \<open>The optional fields \<open>extension?\<close> and \<open>children?\<close> are \<open>None\<close> when absent.\<close>

datatype FileNode =
  FileNode (name: string) (type: node_type) (path: string)
           (extension: "string option") (children: "FileNode list option")

record state =
  rootFiles :: "FileNode list"
  currentPath :: "string list"
  searchQuery :: string
  showPdfViewer :: bool
  currentPdfSrc :: string

subsection \<open>\<open>currentItems\<close>\<close>

text \<open>
  The body of the \<open>for (const folder of currentPath.value)\<close> loop, with \<open>items\<close> as the
  loop variable. \<open>Array.prototype.find\<close> returns the first element that satisfies the
  predicate or \<open>undefined\<close>, which is \<^const>\<open>find\<close>. An array is truthy even when
  empty, so \<open>found && found.children\<close> fails only when nothing was found or the field is
  absent; both leave the loop with \<open>return []\<close>.
\<close>

fun currentItems_loop :: "FileNode list \<Rightarrow> string list \<Rightarrow> FileNode list" where
  "currentItems_loop items [] = items"
| "currentItems_loop items (folder # rest) =
     (case find (\<lambda>i. name i = folder \<and> type i = Directory) items of
        None \<Rightarrow> []
      | Some found \<Rightarrow>
          (case children found of
             None \<Rightarrow> []
           | Some cs \<Rightarrow> currentItems_loop cs rest))"

definition currentItems :: "state \<Rightarrow> FileNode list" where
  "currentItems st = currentItems_loop (rootFiles st) (currentPath st)"

subsection \<open>String builtins used by the search\<close>

text \<open>
  \<open>String.prototype.toLowerCase\<close>, on the ASCII letters: each of \<open>A\<close> to \<open>Z\<close> moves to
  its lower-case letter, every other character stays. (JavaScript also folds the cased
  letters beyond ASCII; no proof below looks inside this function other than to know
  that the empty string, and no other, is mapped to the empty string.)
\<close>

definition toLowerCase_char :: "char \<Rightarrow> char" where
  "toLowerCase_char c =
     (case map_of (zip ''ABCDEFGHIJKLMNOPQRSTUVWXYZ'' ''abcdefghijklmnopqrstuvwxyz'') c of
        Some l \<Rightarrow> l
      | None \<Rightarrow> c)"

definition toLowerCase :: "string \<Rightarrow> string" where
  "toLowerCase s = map toLowerCase_char s"

text \<open>
  \<open>s.includes(q)\<close>: does \<open>q\<close> occur in \<open>s\<close> as a contiguous run, starting at some
  position? \<open>startsWith\<close> tests one position, \<open>includes_str\<close> tries them from the left
  (position \<open>length s\<close> included, where only the empty string occurs).
\<close>

fun startsWith :: "string \<Rightarrow> string \<Rightarrow> bool" where
  "startsWith s [] = True"
| "startsWith [] (q # qs) = False"
| "startsWith (c # cs) (q # qs) = (c = q \<and> startsWith cs qs)"

fun includes_str :: "string \<Rightarrow> string \<Rightarrow> bool" where
  "includes_str [] q = startsWith [] q"
| "includes_str (c # cs) q = (startsWith (c # cs) q \<or> includes_str cs q)"

subsection \<open>\<open>searchRecursive\<close> and \<open>filteredItems\<close>\<close>

text \<open>
  \<open>results.push(node)\<close> appends one element to the local array, \<open>results.concat(r)\<close>
  builds the array of \<open>results\<close> followed by \<open>r\<close>.
\<close>

definition push :: "'a list \<Rightarrow> 'a \<Rightarrow> 'a list" where
  "push xs x = xs @ [x]"

text \<open>
  \<open>searchRecursive\<close> starts its \<open>for (const node of nodes)\<close> loop with \<open>results = []\<close>;
  \<open>searchLoop\<close> is that loop, carrying \<open>results\<close>. The recursive call on
  \<open>node.children\<close> is made from inside the loop body.
\<close>

function searchRecursive :: "FileNode list \<Rightarrow> string \<Rightarrow> FileNode list"
  and searchLoop :: "FileNode list \<Rightarrow> string \<Rightarrow> FileNode list \<Rightarrow> FileNode list" where
  "searchRecursive nodes query = searchLoop nodes query []"
| "searchLoop [] query results = results"
| "searchLoop (node # rest) query results =
     (let results1 =
            (if includes_str (toLowerCase (name node)) query then push results node
             else results);
          results2 =
            (if type node = Directory then
               (case children node of
                  Some cs \<Rightarrow> results1 @ searchRecursive cs query
                | None \<Rightarrow> results1)
             else results1)
      in searchLoop rest query results2)"
  by pat_completeness auto
termination
  by (relation "measure (\<lambda>x. case x of
          Inl (nodes, query) \<Rightarrow> 2 * size_list size nodes + 1
        | Inr (nodes, query, results) \<Rightarrow> 2 * size_list size nodes)")
     (auto, case_tac node, simp)

text \<open>The empty string is the only falsy string, so \<open>!query\<close> is \<open>query = []\<close>.\<close>

definition filteredItems :: "state \<Rightarrow> FileNode list" where
  "filteredItems st =
     (let query = toLowerCase (searchQuery st) in
      if query = [] then currentItems st
      else searchRecursive (rootFiles st) query)"

subsection \<open>Handlers\<close>

text \<open>
  \<open>s.split('/')\<close> cuts \<open>s\<close> at every occurrence of the separator and keeps the empty
  pieces; the empty string gives one empty piece.
\<close>

fun split :: "string \<Rightarrow> char \<Rightarrow> string list" where
  "split [] sep = [[]]"
| "split (c # cs) sep =
     (if c = sep then [] # split cs sep
      else (case split cs sep of
              [] \<Rightarrow> [[c]]
            | w # ws \<Rightarrow> (c # w) # ws))"

text \<open>\<open>xs.pop()\<close> removes the last element (and does nothing to an empty array).\<close>

definition pop :: "'a list \<Rightarrow> 'a list" where
  "pop xs = butlast xs"

text \<open>
  \<open>xs.slice(start, end)\<close> for integer arguments: a negative bound counts from the end
  and is clamped at 0, a bound past the end is clamped at the length, and the result
  holds the elements from the first bound up to the second, none if they cross.
\<close>

definition slice :: "'a list \<Rightarrow> int \<Rightarrow> int \<Rightarrow> 'a list" where
  "slice xs start end' =
     (let len = int (length xs);
          k = (if start < 0 then max (len + start) 0 else min start len);
          final = (if end' < 0 then max (len + end') 0 else min end' len)
      in take (nat (final - k)) (drop (nat k) xs))"

text \<open>
  \<open>handleItemClick\<close>. A non-empty string is truthy, so \<open>if (searchQuery.value)\<close> tests
  \<open>searchQuery st \<noteq> []\<close>; \<open>.filter(p => p)\<close> keeps the non-empty pieces.
\<close>

definition handleItemClick :: "FileNode \<Rightarrow> state \<Rightarrow> state" where
  "handleItemClick item st =
     (if type item = Directory then
        (if searchQuery st \<noteq> [] then
           (let parts = filter (\<lambda>p. p \<noteq> []) (split (path item) CHR ''/'')
            in st\<lparr>currentPath := parts, searchQuery := []\<rparr>)
         else st\<lparr>currentPath := push (currentPath st) (name item)\<rparr>)
      else if extension item = Some ''.pdf'' then
        st\<lparr>currentPdfSrc := ''./Files/'' @ path item, showPdfViewer := True\<rparr>
      else st)"

definition goBack :: "state \<Rightarrow> state" where
  "goBack st =
     (if length (currentPath st) > 0 then st\<lparr>currentPath := pop (currentPath st)\<rparr>
      else st)"

definition navigateTo :: "int \<Rightarrow> state \<Rightarrow> state" where
  "navigateTo index st =
     (if index = -1 then st\<lparr>currentPath := []\<rparr>
      else st\<lparr>currentPath := slice (currentPath st) 0 (index + 1)\<rparr>)"

subsection \<open>Notions of the specification\<close>

text \<open>
  What follows is not code of the component: these are the notions its properties are
  stated with.

  A chain of Directory nodes: \<open>dir_chain items ds lvl\<close> holds when the first node of
  \<open>ds\<close> is one of \<open>items\<close>, every node of \<open>ds\<close> is a Directory that has a \<open>children\<close>
  array, each next node is among the children of the one before, and \<open>lvl\<close> is the
  \<open>children\<close> array of the last node (\<open>items\<close> itself for the empty chain).
\<close>

fun dir_chain :: "FileNode list \<Rightarrow> FileNode list \<Rightarrow> FileNode list \<Rightarrow> bool" where
  "dir_chain items [] lvl = (lvl = items)"
| "dir_chain items (d # ds) lvl =
     (d \<in> set items \<and> type d = Directory \<and>
      (case children d of None \<Rightarrow> False | Some cs \<Rightarrow> dir_chain cs ds lvl))"

text \<open>No two sibling Directories carry the same name, at every level of the tree.\<close>

function unique_dir_names :: "FileNode list \<Rightarrow> bool" where
  "unique_dir_names [] = True"
| "unique_dir_names (n # rest) =
     ((type n = Directory \<longrightarrow> (\<forall>r \<in> set rest. type r = Directory \<longrightarrow> name r \<noteq> name n)) \<and>
      (case children n of None \<Rightarrow> True | Some cs \<Rightarrow> unique_dir_names cs) \<and>
      unique_dir_names rest)"
  by pat_completeness auto
termination
  by (relation "measure (size_list size)") (auto, case_tac n, simp)

text \<open>
  The invariants the specification gives a Tree, which are also what \<open>scanDirectory\<close>
  in scripts/generate-file-index.js writes: the \<open>path\<close> of a node is the path of its
  parent joined by a slash with its own name (the name alone at the top level), sibling
  paths are pairwise different, a Directory has a \<open>children\<close> array whose nodes satisfy
  the same under the Directory's path, and a File has none.
\<close>

definition join_path :: "string \<Rightarrow> string \<Rightarrow> string" where
  "join_path prefix nm = (if prefix = [] then nm else prefix @ ''/'' @ nm)"

function Tree_invariant :: "string \<Rightarrow> FileNode list \<Rightarrow> bool" where
  "Tree_invariant prefix [] = True"
| "Tree_invariant prefix (n # rest) =
     (path n = join_path prefix (name n) \<and>
      path n \<notin> path ` set rest \<and>
      (case type n of
         Directory \<Rightarrow>
           (case children n of None \<Rightarrow> False | Some cs \<Rightarrow> Tree_invariant (path n) cs)
       | File \<Rightarrow> children n = None) \<and>
      Tree_invariant prefix rest)"
  by pat_completeness auto
termination
  by (relation "measure (\<lambda>(prefix, nodes). size_list size nodes)") (auto, case_tac n, simp)

text \<open>
  The level a sequence of folder names leads to, when every name is matched: at each
  step the first item of the level with that name and kind Directory is taken, and its
  \<open>children\<close> are the next level. \<open>None\<close> when a step finds no such item or the item
  has no \<open>children\<close>.
\<close>

fun resolve_level :: "FileNode list \<Rightarrow> string list \<Rightarrow> FileNode list option" where
  "resolve_level items [] = Some items"
| "resolve_level items (seg # segs) =
     (case find (\<lambda>i. name i = seg \<and> type i = Directory) items of
        None \<Rightarrow> None
      | Some d \<Rightarrow>
          (case children d of None \<Rightarrow> None | Some cs \<Rightarrow> resolve_level cs segs))"

text \<open>
  The nodes of the tree in pre-order: a node, then the nodes below it when it is a
  Directory with children, then the nodes after it. \<open>in_tree\<close> says the same without
  an order: the top-level nodes, and the children of every Directory in the tree.
\<close>

fun tree_nodes :: "FileNode list \<Rightarrow> FileNode list" where
  "tree_nodes [] = []"
| "tree_nodes (FileNode nm Directory p e (Some cs) # rest) =
     FileNode nm Directory p e (Some cs) # tree_nodes cs @ tree_nodes rest"
| "tree_nodes (n # rest) = n # tree_nodes rest"

inductive in_tree :: "FileNode list \<Rightarrow> FileNode \<Rightarrow> bool" for root where
  top: "n \<in> set root \<Longrightarrow> in_tree root n"
| child: "in_tree root d \<Longrightarrow> type d = Directory \<Longrightarrow> children d = Some cs \<Longrightarrow>
          n \<in> set cs \<Longrightarrow> in_tree root n"

text \<open>The pre-order listing that goes below every node that has a \<open>children\<close> array.\<close>

fun all_nodes :: "FileNode list \<Rightarrow> FileNode list" where
  "all_nodes [] = []"
| "all_nodes (FileNode nm t p e (Some cs) # rest) =
     FileNode nm t p e (Some cs) # all_nodes cs @ all_nodes rest"
| "all_nodes (n # rest) = n # all_nodes rest"

text \<open>A node matches a query when its lower-cased name contains the lower-cased query.\<close>

definition name_matches :: "string \<Rightarrow> FileNode \<Rightarrow> bool" where
  "name_matches q n = includes_str (toLowerCase (name n)) (toLowerCase q)"

text \<open>\<open>ws.join(sep)\<close>, the inverse of \<open>split\<close>.\<close>

fun join :: "string list \<Rightarrow> char \<Rightarrow> string" where
  "join [] sep = []"
| "join [w] sep = w"
| "join (w # v # ws) sep = w @ sep # join (v # ws) sep"

text \<open>The user's actions on the navigation, and a session as a sequence of them.\<close>

datatype action = Click FileNode | Back | JumpTo int

fun perform :: "action \<Rightarrow> state \<Rightarrow> state" where
  "perform (Click item) st = handleItemClick item st"
| "perform Back st = goBack st"
| "perform (JumpTo index) st = navigateTo index st"

fun run :: "action list \<Rightarrow> state \<Rightarrow> state" where
  "run [] st = st"
| "run (a # as) st = run as (perform a st)"

subsection \<open>A small archive\<close>

text \<open>
  The tree of the specification's scenario (a folder \<open>Economics\<close> holding \<open>book.pdf\<close>),
  with a subfolder and two files that are not PDFs added.
\<close>

definition book :: FileNode where
  "book = FileNode ''book.pdf'' File ''Economics/book.pdf'' (Some ''.pdf'') None"

definition memo :: FileNode where
  "memo = FileNode ''Memo.TXT'' File ''Economics/Sub/Memo.TXT'' (Some ''.txt'') None"

definition sub :: FileNode where
  "sub = FileNode ''Sub'' Directory ''Economics/Sub'' None (Some [memo])"

definition economics :: FileNode where
  "economics = FileNode ''Economics'' Directory ''Economics'' None (Some [book, sub])"

definition readme :: FileNode where
  "readme = FileNode ''README'' File ''README'' (Some []) None"

definition archive :: "FileNode list" where
  "archive = [economics, readme]"

definition at_root :: state where
  "at_root = \<lparr>rootFiles = archive, currentPath = [], searchQuery = [],
              showPdfViewer = False, currentPdfSrc = []\<rparr>"

lemmas archive_defs =
  at_root_def archive_def economics_def sub_def book_def memo_def readme_def

section \<open>Resolving the navigation path\<close>

subsection \<open>Sibling names under the Tree invariants\<close>

lemma Tree_invariant_path:
  "Tree_invariant prefix nodes \<Longrightarrow> r \<in> set nodes \<Longrightarrow> path r = join_path prefix (name r)"
  by (induction nodes) auto

lemma Tree_invariant_unique_dir_names:
  "Tree_invariant prefix nodes \<Longrightarrow> unique_dir_names nodes"
proof (induction prefix nodes rule: Tree_invariant.induct)
  case (1 prefix)
  then show ?case by simp
next
  case (2 prefix n rest)
  from "2.prems" have rest: "Tree_invariant prefix rest" by simp
  have "name r \<noteq> name n" if "r \<in> set rest" for r
  proof
    assume "name r = name n"
    then have "path r = path n"
      using Tree_invariant_path [OF rest that] "2.prems" by simp
    with that "2.prems" show False by (simp add: image_iff) metis
  qed
  moreover have "unique_dir_names rest" using "2.IH"(2) rest by simp
  moreover have "unique_dir_names cs" if "children n = Some cs" for cs
  proof (cases "type n")
    case Directory
    with that "2.prems" have "Tree_invariant (path n) cs" by auto
    with "2.IH"(1) [OF Directory that] show ?thesis by simp
  next
    case File
    with that "2.prems" show ?thesis by simp
  qed
  ultimately show ?case by (auto split: option.splits)
qed

lemma archive_Tree_invariant: "Tree_invariant [] archive"
  by (simp add: archive_defs join_path_def)

subsection \<open>Walking down a chain\<close>

text \<open>Among siblings with distinct Directory names, \<open>find\<close> returns the Directory asked for.\<close>

lemma find_unique_dir:
  "unique_dir_names items \<Longrightarrow> d \<in> set items \<Longrightarrow> type d = Directory \<Longrightarrow>
   find (\<lambda>i. name i = name d \<and> type i = Directory) items = Some d"
proof (induction items)
  case Nil
  then show ?case by simp
next
  case (Cons n rest)
  show ?case
  proof (cases "n = d")
    case True
    with Cons.prems show ?thesis by simp
  next
    case False
    with Cons.prems have d: "d \<in> set rest" by simp
    with Cons.prems have "\<not> (name n = name d \<and> type n = Directory)" by auto
    moreover from Cons.prems have "unique_dir_names rest" by simp
    ultimately show ?thesis using Cons.IH d Cons.prems(3) by auto
  qed
qed

lemma unique_dir_names_children:
  "unique_dir_names items \<Longrightarrow> d \<in> set items \<Longrightarrow> children d = Some cs \<Longrightarrow>
   unique_dir_names cs"
  by (induction items) auto

text \<open>
  The loop consumes the names of a chain and goes on from the chain's last level with
  the segments that are left.
\<close>

lemma currentItems_loop_chain:
  "unique_dir_names items \<Longrightarrow> dir_chain items ds lvl \<Longrightarrow>
   currentItems_loop items (map name ds @ segs) = currentItems_loop lvl segs"
proof (induction ds arbitrary: items)
  case Nil
  then show ?case by simp
next
  case (Cons d ds)
  from Cons.prems(2) obtain cs where d: "d \<in> set items" "type d = Directory"
    and cs: "children d = Some cs" and ch: "dir_chain cs ds lvl"
    by (auto split: option.splits)
  have "find (\<lambda>i. name i = name d \<and> type i = Directory) items = Some d"
    using find_unique_dir [OF Cons.prems(1) d] .
  moreover have "unique_dir_names cs"
    using unique_dir_names_children [OF Cons.prems(1) d(1) cs] .
  ultimately show ?case using cs ch Cons.IH by simp
qed

text \<open>
  Claim C1 (resolve correctness). Let the navigation path be the names along a chain
  of Directory nodes that starts at the root of the tree, each Directory of the chain
  among the children of the one before. Then \<open>currentItems\<close> is the \<open>children\<close> array
  of the chain's last Directory, as a list and so in its order (the root array for the
  empty chain). The tree is one in which sibling Directories have distinct names, which
  the Tree invariants give (\<open>Tree_invariant_unique_dir_names\<close>); \<open>find\<close> takes the
  first Directory of a name, so a second one of the same name could not be reached.
\<close>

theorem resolve_correct:
  assumes "unique_dir_names (rootFiles st)"
    and "dir_chain (rootFiles st) ds lvl"
    and "currentPath st = map name ds"
  shows "currentItems st = lvl"
  using currentItems_loop_chain [OF assms(1,2), of "[]"] assms(3)
  by (simp add: currentItems_def)

theorem resolve_correct_witness:
  "unique_dir_names (rootFiles (at_root\<lparr>currentPath := [''Economics'', ''Sub'']\<rparr>)) \<and>
   dir_chain (rootFiles (at_root\<lparr>currentPath := [''Economics'', ''Sub'']\<rparr>))
     [economics, sub] [memo] \<and>
   currentPath (at_root\<lparr>currentPath := [''Economics'', ''Sub'']\<rparr>) = map name [economics, sub] \<and>
   currentItems (at_root\<lparr>currentPath := [''Economics'', ''Sub'']\<rparr>) = [memo]"
proof -
  let ?st = "at_root\<lparr>currentPath := [''Economics'', ''Sub'']\<rparr>"
  have u: "unique_dir_names (rootFiles ?st)"
    by (simp add: archive_defs)
  have c: "dir_chain (rootFiles ?st) [economics, sub] [memo]"
    by (simp add: archive_defs)
  have p: "currentPath ?st = map name [economics, sub]"
    by (simp add: archive_defs)
  from resolve_correct [OF u c p] u c p show ?thesis by simp
qed

subsection \<open>A segment that matches no Directory\<close>

lemma currentItems_loop_level:
  "resolve_level items pre = Some lvl \<Longrightarrow>
   currentItems_loop items (pre @ segs) = currentItems_loop lvl segs"
  by (induction items pre rule: resolve_level.induct) (auto split: option.splits)

text \<open>The loop returns the level reached, and the empty list when there is none.\<close>

lemma currentItems_loop_resolve_level:
  "currentItems_loop items segs =
     (case resolve_level items segs of None \<Rightarrow> [] | Some lvl \<Rightarrow> lvl)"
  by (induction items segs rule: resolve_level.induct) (auto split: option.splits)

text \<open>
  A path that reaches no level has a first segment at which the walk stops: the level
  before it exists, and there the segment names no Directory, or the Directory it names
  has no \<open>children\<close>.
\<close>

lemma resolve_level_None:
  "resolve_level items p = None \<Longrightarrow>
   \<exists>pre seg rest lvl. p = pre @ seg # rest \<and> resolve_level items pre = Some lvl \<and>
     ((\<forall>i \<in> set lvl. name i = seg \<longrightarrow> type i \<noteq> Directory) \<or>
      (\<exists>d. find (\<lambda>i. name i = seg \<and> type i = Directory) lvl = Some d \<and> children d = None))"
proof (induction items p rule: resolve_level.induct)
  case (1 items)
  then show ?case by simp
next
  case (2 items seg segs)
  show ?case
  proof (cases "find (\<lambda>i. name i = seg \<and> type i = Directory) items")
    case None
    then have "\<forall>i \<in> set items. name i = seg \<longrightarrow> type i \<noteq> Directory"
      by (auto simp: find_None_iff)
    then show ?thesis
      by (intro exI [of _ "[]"] exI [of _ seg] exI [of _ segs] exI [of _ items]) simp
  next
    case (Some d)
    note found = this
    show ?thesis
    proof (cases "children d")
      case None
      with found show ?thesis
        by (intro exI [of _ "[]"] exI [of _ seg] exI [of _ segs] exI [of _ items]) simp
    next
      case (Some cs)
      with found "2.prems" have "resolve_level cs segs = None" by simp
      from "2.IH" [OF found Some this]
      obtain pre s rest lvl where "segs = pre @ s # rest" "resolve_level cs pre = Some lvl"
        "(\<forall>i \<in> set lvl. name i = s \<longrightarrow> type i \<noteq> Directory) \<or>
         (\<exists>d. find (\<lambda>i. name i = s \<and> type i = Directory) lvl = Some d \<and> children d = None)"
        by blast
      then show ?thesis using Some found
        by (intro exI [of _ "seg # pre"] exI [of _ s] exI [of _ rest] exI [of _ lvl]) simp
    qed
  qed
qed

text \<open>
  Claim C4 (resolve invalidity). Let the navigation path hold a segment \<open>seg\<close>, after
  segments \<open>pre\<close> that lead to the level \<open>lvl\<close>, such that at \<open>lvl\<close> no item named \<open>seg\<close>
  is a Directory (no item has the name, or those that have it are Files), or the
  Directory found for \<open>seg\<close> has no \<open>children\<close> field. Then \<open>currentItems\<close> is the empty
  list, whatever segments follow. \<open>currentItems\<close> is a total function to lists: there
  is no error value it could return instead.
\<close>

theorem resolve_invalid:
  assumes "currentPath st = pre @ seg # rest"
    and "resolve_level (rootFiles st) pre = Some lvl"
    and "(\<forall>i \<in> set lvl. name i = seg \<longrightarrow> type i \<noteq> Directory) \<or>
         (\<exists>d. find (\<lambda>i. name i = seg \<and> type i = Directory) lvl = Some d \<and> children d = None)"
  shows "currentItems st = []"
proof -
  have "currentItems st = currentItems_loop lvl (seg # rest)"
    using currentItems_loop_level [OF assms(2)] assms(1) by (simp add: currentItems_def)
  moreover have "currentItems_loop lvl (seg # rest) = []"
    using assms(3)
  proof
    assume "\<forall>i \<in> set lvl. name i = seg \<longrightarrow> type i \<noteq> Directory"
    then have "find (\<lambda>i. name i = seg \<and> type i = Directory) lvl = None"
      by (auto simp: find_None_iff)
    then show ?thesis by simp
  next
    assume "\<exists>d. find (\<lambda>i. name i = seg \<and> type i = Directory) lvl = Some d \<and> children d = None"
    then show ?thesis by auto
  qed
  ultimately show ?thesis by simp
qed

text \<open>
  Two instances: \<open>book.pdf\<close> is found in \<open>Economics\<close> but is a File, and \<open>Sub\<close> is a
  Directory of a tree in which it was left without \<open>children\<close>.
\<close>

theorem resolve_invalid_witness:
  "resolve_level archive [''Economics''] = Some [book, sub] \<and>
   type book = File \<and> name sub \<noteq> ''book.pdf'' \<and>
   currentItems (at_root\<lparr>currentPath := [''Economics'', ''book.pdf'', ''Sub'']\<rparr>) = [] \<and>
   resolve_level [FileNode ''Sub'' Directory ''Sub'' None None] [] =
     Some [FileNode ''Sub'' Directory ''Sub'' None None] \<and>
   children (FileNode ''Sub'' Directory ''Sub'' None None) = None \<and>
   currentItems (at_root\<lparr>rootFiles := [FileNode ''Sub'' Directory ''Sub'' None None],
                          currentPath := [''Sub'']\<rparr>) = []"
proof -
  let ?s1 = "at_root\<lparr>currentPath := [''Economics'', ''book.pdf'', ''Sub'']\<rparr>"
  let ?hollow = "FileNode ''Sub'' Directory ''Sub'' None None"
  let ?s2 = "at_root\<lparr>rootFiles := [?hollow], currentPath := [''Sub'']\<rparr>"
  have p1: "currentPath ?s1 = [''Economics''] @ ''book.pdf'' # [''Sub'']"
    by simp
  have l1: "resolve_level (rootFiles ?s1) [''Economics''] = Some [book, sub]"
    by (simp add: archive_defs)
  have b1: "(\<forall>i \<in> set [book, sub]. name i = ''book.pdf'' \<longrightarrow> type i \<noteq> Directory) \<or>
            (\<exists>d. find (\<lambda>i. name i = ''book.pdf'' \<and> type i = Directory) [book, sub] = Some d \<and>
                 children d = None)"
    by (simp add: archive_defs)
  have p2: "currentPath ?s2 = [] @ ''Sub'' # []"
    by simp
  have l2: "resolve_level (rootFiles ?s2) [] = Some [?hollow]"
    by simp
  have b2: "(\<forall>i \<in> set [?hollow]. name i = ''Sub'' \<longrightarrow> type i \<noteq> Directory) \<or>
            (\<exists>d. find (\<lambda>i. name i = ''Sub'' \<and> type i = Directory) [?hollow] = Some d \<and>
                 children d = None)"
    by simp
  from resolve_invalid [OF p1 l1 b1] resolve_invalid [OF p2 l2 b2] l1 l2
  show ?thesis by (simp add: archive_defs)
qed

section \<open>Search\<close>

subsection \<open>The string builtins\<close>

lemma startsWith_iff: "startsWith s q \<longleftrightarrow> (\<exists>suf. s = q @ suf)"
  by (induction s q rule: startsWith.induct) auto

text \<open>\<open>includes_str\<close> is substring containment.\<close>

lemma includes_str_iff: "includes_str s q \<longleftrightarrow> (\<exists>pre suf. s = pre @ q @ suf)"
proof (induction s)
  case Nil
  then show ?case by (auto simp: startsWith_iff)
next
  case (Cons c cs)
  show ?case
  proof
    assume "includes_str (c # cs) q"
    then consider "startsWith (c # cs) q" | "includes_str cs q" by auto
    then show "\<exists>pre suf. c # cs = pre @ q @ suf"
    proof cases
      case 1
      then obtain suf where "c # cs = q @ suf" by (auto simp: startsWith_iff)
      then have "c # cs = [] @ q @ suf" by simp
      then show ?thesis by blast
    next
      case 2
      with Cons.IH obtain pre suf where "cs = pre @ q @ suf" by blast
      then have "c # cs = (c # pre) @ q @ suf" by simp
      then show ?thesis by blast
    qed
  next
    assume "\<exists>pre suf. c # cs = pre @ q @ suf"
    then obtain pre suf where eq: "c # cs = pre @ q @ suf" by blast
    show "includes_str (c # cs) q"
    proof (cases pre)
      case Nil
      with eq have "startsWith (c # cs) q" by (auto simp: startsWith_iff)
      then show ?thesis by simp
    next
      case (Cons p pre')
      with eq have "cs = pre' @ q @ suf" by simp
      with Cons.IH have "includes_str cs q" by blast
      then show ?thesis by simp
    qed
  qed
qed

lemma toLowerCase_Nil_iff: "toLowerCase s = [] \<longleftrightarrow> s = []"
  by (simp add: toLowerCase_def)

subsection \<open>The pre-order listing and the tree\<close>

lemma in_tree_sub:
  "in_tree cs n \<Longrightarrow> d \<in> set root \<Longrightarrow> type d = Directory \<Longrightarrow> children d = Some cs \<Longrightarrow>
   in_tree root n"
  by (induction rule: in_tree.induct) (meson in_tree.intros)+

lemma in_tree_mono: "in_tree xs n \<Longrightarrow> set xs \<subseteq> set ys \<Longrightarrow> in_tree ys n"
  by (induction rule: in_tree.induct) (auto intro: in_tree.intros)

lemma in_tree_Cons: "in_tree rest n \<Longrightarrow> in_tree (x # rest) n"
  by (rule in_tree_mono) auto

lemma tree_nodes_in_tree: "n \<in> set (tree_nodes nodes) \<Longrightarrow> in_tree nodes n"
proof (induction nodes arbitrary: n rule: tree_nodes.induct)
  case (2 nm p e cs rest)
  let ?d = "FileNode nm Directory p e (Some cs)"
  from "2.prems" consider "n = ?d" | "n \<in> set (tree_nodes cs)" | "n \<in> set (tree_nodes rest)"
    by auto
  then show ?case
  proof cases
    case 1
    then show ?thesis by (simp add: in_tree.top)
  next
    case 2
    then have "in_tree cs n" using "2.IH"(1) by simp
    then show ?thesis using in_tree_sub [of cs n ?d "?d # rest"] by simp
  next
    case 3
    then have "in_tree rest n" using "2.IH"(2) by simp
    then show ?thesis by (rule in_tree_Cons)
  qed
qed (auto intro: in_tree.top in_tree_Cons)

lemma set_tree_nodes_top: "set nodes \<subseteq> set (tree_nodes nodes)"
  by (induction nodes rule: tree_nodes.induct) auto

lemma tree_nodes_child:
  "d \<in> set (tree_nodes nodes) \<Longrightarrow> type d = Directory \<Longrightarrow> children d = Some cs \<Longrightarrow>
   set (tree_nodes cs) \<subseteq> set (tree_nodes nodes)"
  by (induction nodes rule: tree_nodes.induct) auto

lemma in_tree_tree_nodes: "in_tree nodes n \<Longrightarrow> n \<in> set (tree_nodes nodes)"
proof (induction rule: in_tree.induct)
  case (top n)
  then show ?case using set_tree_nodes_top by blast
next
  case (child d cs n)
  then show ?case using tree_nodes_child set_tree_nodes_top by blast
qed

text \<open>The pre-order listing holds the nodes of the tree, at every depth, and no others.\<close>

lemma set_tree_nodes: "set (tree_nodes nodes) = {n. in_tree nodes n}"
  using tree_nodes_in_tree in_tree_tree_nodes by blast

text \<open>A Directory stands before the nodes below it, and those before what follows it.\<close>

lemma tree_nodes_Directory:
  "type d = Directory \<Longrightarrow> children d = Some cs \<Longrightarrow>
   tree_nodes (d # rest) = d # tree_nodes cs @ tree_nodes rest"
  by (cases d) simp

lemma tree_nodes_leaf:
  "type d = File \<or> children d = None \<Longrightarrow> tree_nodes (d # rest) = d # tree_nodes rest"
  by (cases d; cases "type d"; cases "children d") auto

text \<open>
  Under the Tree invariants only a Directory has \<open>children\<close>, so nothing is below a
  File and the listing misses no node of the snapshot.
\<close>

lemma Tree_invariant_all_nodes:
  "Tree_invariant prefix nodes \<Longrightarrow> tree_nodes nodes = all_nodes nodes"
proof (induction prefix nodes rule: Tree_invariant.induct)
  case (1 prefix)
  then show ?case by simp
next
  case (2 prefix n rest)
  from "2.prems" have rest: "tree_nodes rest = all_nodes rest"
    using "2.IH"(2) by simp
  obtain nm t p e c where n: "n = FileNode nm t p e c" by (cases n)
  show ?case
  proof (cases t)
    case Directory
    with "2.prems" n obtain cs where c: "c = Some cs" and inv: "Tree_invariant p cs"
      by (auto split: option.splits)
    have "tree_nodes cs = all_nodes cs"
      using "2.IH"(1) [of cs] Directory c n inv by simp
    with rest Directory c n show ?thesis by simp
  next
    case File
    with "2.prems" n have "c = None" by simp
    with rest File n show ?thesis by simp
  qed
qed

subsection \<open>\<open>searchRecursive\<close> filters the pre-order listing\<close>

text \<open>
  The loop appends to \<open>results\<close> the matching nodes of the trees it is given, in
  pre-order; \<open>searchRecursive\<close> is the loop started with no results.
\<close>

lemma search_filter:
  "searchRecursive nodes query =
     filter (\<lambda>n. includes_str (toLowerCase (name n)) query) (tree_nodes nodes)"
  "searchLoop nodes query results =
     results @ filter (\<lambda>n. includes_str (toLowerCase (name n)) query) (tree_nodes nodes)"
proof (induction nodes query and nodes query results rule: searchRecursive_searchLoop.induct)
  case (1 nodes query)
  then show ?case by simp
next
  case (2 query results)
  then show ?case by simp
next
  case (3 node rest query results)
  let ?m = "\<lambda>n. includes_str (toLowerCase (name n)) query"
  define r1 where
    "r1 = (if includes_str (toLowerCase (name node)) query then push results node else results)"
  define r2 where
    "r2 = (if type node = Directory then
             (case children node of Some cs \<Rightarrow> r1 @ searchRecursive cs query | None \<Rightarrow> r1)
           else r1)"
  have step: "searchLoop (node # rest) query results = searchLoop rest query r2"
    unfolding r2_def r1_def by (simp add: Let_def)
  have loop: "searchLoop rest query r2 = r2 @ filter ?m (tree_nodes rest)"
    using "3.IH"(2) [OF r1_def r2_def] .
  have r1: "r1 = results @ filter ?m [node]"
    by (simp add: r1_def push_def)
  have "r2 @ filter ?m (tree_nodes rest) = results @ filter ?m (tree_nodes (node # rest))"
  proof (cases "type node = Directory \<and> children node \<noteq> None")
    case True
    then obtain cs where dir: "type node = Directory" "children node = Some cs" by auto
    have "searchRecursive cs query = filter ?m (tree_nodes cs)"
      using "3.IH"(1) [OF r1_def dir] .
    then have "r2 = r1 @ filter ?m (tree_nodes cs)"
      using dir by (simp add: r2_def)
    then show ?thesis using r1 tree_nodes_Directory [OF dir] by simp
  next
    case False
    then have leaf: "type node = File \<or> children node = None"
      by (cases "type node") auto
    then have "r2 = r1"
      by (auto simp: r2_def)
    then show ?thesis using r1 tree_nodes_leaf [OF leaf] by simp
  qed
  with step loop show ?case by simp
qed

text \<open>
  Claim C2 (search completeness and order). For a non-empty query, \<open>filteredItems\<close> is
  the pre-order listing of the whole tree with the nodes that do not match left out:
  every matching node is there as often as the tree holds it, a Directory before the
  nodes below it, at any depth and in any number. As a set it is the set of the nodes of
  the tree whose lower-cased name contains the lower-cased query.
\<close>

theorem search_complete:
  assumes "searchQuery st \<noteq> []"
  shows "filteredItems st = filter (name_matches (searchQuery st)) (tree_nodes (rootFiles st)) \<and>
         set (filteredItems st) = {n. in_tree (rootFiles st) n \<and> name_matches (searchQuery st) n}"
proof -
  have "toLowerCase (searchQuery st) \<noteq> []"
    using assms by (simp add: toLowerCase_Nil_iff)
  then have "filteredItems st =
      filter (name_matches (searchQuery st)) (tree_nodes (rootFiles st))"
    by (simp add: filteredItems_def Let_def search_filter(2) name_matches_def [abs_def])
  then show ?thesis
    by (auto simp: set_tree_nodes)
qed

text \<open>
  The query \<open>M\<close> in the small archive: of the five nodes in pre-order, the folder
  \<open>Economics\<close>, the file \<open>Memo.TXT\<close> two levels down and \<open>README\<close> match.
\<close>

theorem search_complete_witness:
  "searchQuery (at_root\<lparr>searchQuery := ''M''\<rparr>) \<noteq> [] \<and>
   tree_nodes archive = [economics, book, sub, memo, readme] \<and>
   filteredItems (at_root\<lparr>searchQuery := ''M''\<rparr>) = [economics, memo, readme]"
proof -
  let ?st = "at_root\<lparr>searchQuery := ''M''\<rparr>"
  have q: "searchQuery ?st \<noteq> []"
    by simp
  have t: "tree_nodes archive = [economics, book, sub, memo, readme]"
    by (simp add: archive_defs)
  have r: "rootFiles ?st = archive"
    by (simp add: at_root_def)
  have "filter (name_matches ''M'') [economics, book, sub, memo, readme] =
          [economics, memo, readme]"
    by (simp add: name_matches_def toLowerCase_def toLowerCase_char_def archive_defs)
  with search_complete [OF q] t r q show ?thesis by simp
qed

text \<open>
  Claim C7 (search emptiness). With the empty query, \<open>filteredItems\<close> is \<open>currentItems\<close>
  of the current navigation path.
\<close>

theorem empty_query_is_currentItems:
  "searchQuery st = [] \<Longrightarrow> filteredItems st = currentItems st"
  by (simp add: filteredItems_def toLowerCase_def)

text \<open>Inside \<open>Economics\<close> with no query: the two items of that folder, not the five of the tree.\<close>

theorem empty_query_is_currentItems_witness:
  "searchQuery (at_root\<lparr>currentPath := [''Economics'']\<rparr>) = [] \<and>
   currentItems (at_root\<lparr>currentPath := [''Economics'']\<rparr>) = [book, sub] \<and>
   filteredItems (at_root\<lparr>currentPath := [''Economics'']\<rparr>) = [book, sub]"
proof -
  let ?st = "at_root\<lparr>currentPath := [''Economics'']\<rparr>"
  have q: "searchQuery ?st = []"
    by (simp add: at_root_def)
  have c: "currentItems ?st = [book, sub]"
    by (simp add: currentItems_def archive_defs)
  from empty_query_is_currentItems [OF q] q c show ?thesis by simp
qed

text \<open>
  Claim C8 (search is independent of the location). Two states with the same tree and
  the same non-empty query have the same \<open>filteredItems\<close>, whatever their navigation
  paths (and preview cells) are.
\<close>

theorem search_location_independent:
  assumes "searchQuery st1 \<noteq> []"
    and "rootFiles st1 = rootFiles st2"
    and "searchQuery st1 = searchQuery st2"
  shows "filteredItems st1 = filteredItems st2"
  using assms by (simp add: filteredItems_def toLowerCase_def Let_def)

theorem search_location_independent_witness:
  "searchQuery (at_root\<lparr>searchQuery := ''boo''\<rparr>) \<noteq> [] \<and>
   currentPath (at_root\<lparr>searchQuery := ''boo''\<rparr>) \<noteq>
     currentPath (at_root\<lparr>currentPath := [''Economics'', ''Sub''], searchQuery := ''boo''\<rparr>) \<and>
   filteredItems (at_root\<lparr>searchQuery := ''boo''\<rparr>) =
     filteredItems (at_root\<lparr>currentPath := [''Economics'', ''Sub''], searchQuery := ''boo''\<rparr>)"
proof -
  let ?s1 = "at_root\<lparr>searchQuery := ''boo''\<rparr>"
  let ?s2 = "at_root\<lparr>currentPath := [''Economics'', ''Sub''], searchQuery := ''boo''\<rparr>"
  have q: "searchQuery ?s1 \<noteq> []" by simp
  have r: "rootFiles ?s1 = rootFiles ?s2" by simp
  have e: "searchQuery ?s1 = searchQuery ?s2" by simp
  have p: "currentPath ?s1 \<noteq> currentPath ?s2" by (simp add: at_root_def)
  from search_location_independent [OF q r e] q p show ?thesis by simp
qed

section \<open>Clicks and navigation\<close>

subsection \<open>\<open>split\<close> and \<open>slice\<close>\<close>

lemma split_not_Nil: "split s sep \<noteq> []"
  by (induction s) (auto split: list.splits)

text \<open>
  \<open>split\<close> cuts at the separators and nowhere else: joining the pieces with the
  separator gives the string back, and no piece holds a separator.
\<close>

lemma join_split: "join (split s sep) sep = s"
proof (induction s)
  case Nil
  then show ?case by simp
next
  case (Cons c cs)
  obtain w ws where "split cs sep = w # ws"
    using split_not_Nil [of cs sep] by (cases "split cs sep") auto
  with Cons show ?case by (cases ws) auto
qed

lemma split_no_sep: "w \<in> set (split s sep) \<Longrightarrow> sep \<notin> set w"
  by (induction s arbitrary: w) (auto split: if_splits list.splits)

text \<open>From position 0, \<open>slice\<close> keeps a prefix: all but the last \<open>- e\<close> elements for a
  negative end \<open>e\<close>, the first \<open>e\<close> elements otherwise.\<close>

lemma slice_0:
  "slice xs 0 e = (if e < 0 then take (length xs - nat (- e)) xs else take (nat e) xs)"
proof -
  have neg: "nat (int (length xs) + e) = length xs - nat (- e)" if "e < 0"
    using that by arith
  show ?thesis
    by (auto simp: slice_def Let_def min_def max_def neg)
qed

subsection \<open>\<open>handleItemClick\<close>\<close>

text \<open>
  Claim C3 (click dispatch). A click on a Directory while the query is not empty sets
  the navigation path to the non-empty pieces of the item's \<open>path\<close> cut at the slashes
  and empties the query. A click on a Directory with the empty query appends the item's
  \<open>name\<close> to the navigation path. A click on a File whose \<open>extension\<close> is \<open>.pdf\<close> sets the
  viewer source to \<open>./Files/\<close> followed by the item's \<open>path\<close> and opens the viewer. A
  click on any other File leaves the state as it is. In each case the cells not named
  keep their values.
\<close>

theorem click_dispatch:
  "(type item = Directory \<and> searchQuery st \<noteq> [] \<longrightarrow>
      handleItemClick item st =
        st\<lparr>currentPath := filter (\<lambda>p. p \<noteq> []) (split (path item) CHR ''/''),
           searchQuery := []\<rparr>) \<and>
   (type item = Directory \<and> searchQuery st = [] \<longrightarrow>
      handleItemClick item st = st\<lparr>currentPath := currentPath st @ [name item]\<rparr>) \<and>
   (type item = File \<and> extension item = Some ''.pdf'' \<longrightarrow>
      handleItemClick item st =
        st\<lparr>currentPdfSrc := ''./Files/'' @ path item, showPdfViewer := True\<rparr>) \<and>
   (type item = File \<and> extension item \<noteq> Some ''.pdf'' \<longrightarrow> handleItemClick item st = st)"
  by (simp add: handleItemClick_def push_def)

text \<open>
  The four cases in the small archive: \<open>Sub\<close> clicked in the results of a search and
  in the listing of \<open>Economics\<close>, \<open>book.pdf\<close>, and \<open>Memo.TXT\<close>.
\<close>

theorem click_dispatch_witness:
  "type sub = Directory \<and> searchQuery (at_root\<lparr>searchQuery := ''su''\<rparr>) \<noteq> [] \<and>
   handleItemClick sub (at_root\<lparr>searchQuery := ''su''\<rparr>) =
     at_root\<lparr>currentPath := [''Economics'', ''Sub'']\<rparr> \<and>
   searchQuery (at_root\<lparr>currentPath := [''Economics'']\<rparr>) = [] \<and>
   handleItemClick sub (at_root\<lparr>currentPath := [''Economics'']\<rparr>) =
     at_root\<lparr>currentPath := [''Economics'', ''Sub'']\<rparr> \<and>
   type book = File \<and> extension book = Some ''.pdf'' \<and>
   handleItemClick book at_root =
     at_root\<lparr>currentPdfSrc := ''./Files/Economics/book.pdf'', showPdfViewer := True\<rparr> \<and>
   type memo = File \<and> extension memo \<noteq> Some ''.pdf'' \<and>
   handleItemClick memo at_root = at_root"
proof -
  have d: "type sub = Directory" "path sub = ''Economics/Sub''" "name sub = ''Sub''"
    by (simp_all add: sub_def)
  have b: "type book = File" "extension book = Some ''.pdf''"
    "path book = ''Economics/book.pdf''"
    by (simp_all add: book_def)
  have m: "type memo = File" "extension memo \<noteq> Some ''.pdf''"
    by (simp_all add: memo_def)
  have q: "searchQuery (at_root\<lparr>searchQuery := ''su''\<rparr>) \<noteq> []"
    "searchQuery (at_root\<lparr>currentPath := [''Economics'']\<rparr>) = []"
    "searchQuery at_root = []" "currentPath at_root = []"
    by (simp_all add: at_root_def)
  have s: "filter (\<lambda>p. p \<noteq> []) (split ''Economics/Sub'' CHR ''/'') = [''Economics'', ''Sub'']"
    by simp
  from click_dispatch [of sub "at_root\<lparr>searchQuery := ''su''\<rparr>"]
    click_dispatch [of sub "at_root\<lparr>currentPath := [''Economics'']\<rparr>"]
    click_dispatch [of book at_root] click_dispatch [of memo at_root]
    d b m q s
  show ?thesis by (simp add: at_root_def)
qed

subsection \<open>\<open>navigateTo\<close> and \<open>goBack\<close>\<close>

text \<open>
  Claim C5 (JumpTo truncation). \<open>navigateTo (-1)\<close> empties the navigation path whatever
  its depth was, and for an index \<open>k\<close> with \<open>0 \<le> k\<close> below the depth, \<open>navigateTo k\<close>
  leaves the first \<open>k + 1\<close> segments.
\<close>

theorem jumpTo_truncation:
  "currentPath (navigateTo (- 1) st) = [] \<and>
   (0 \<le> k \<and> k < int (length (currentPath st)) \<longrightarrow>
      currentPath (navigateTo k st) = take (nat k + 1) (currentPath st))"
  by (auto simp: navigateTo_def slice_0 nat_add_distrib)

theorem jumpTo_truncation_witness:
  "currentPath (navigateTo (- 1) (at_root\<lparr>currentPath := [''a'', ''b'', ''c'']\<rparr>)) = [] \<and>
   (0::int) \<le> 1 \<and> (1::int) < int (length (currentPath (at_root\<lparr>currentPath := [''a'', ''b'', ''c'']\<rparr>))) \<and>
   currentPath (navigateTo 1 (at_root\<lparr>currentPath := [''a'', ''b'', ''c'']\<rparr>)) = [''a'', ''b'']"
  using jumpTo_truncation [of "at_root\<lparr>currentPath := [''a'', ''b'', ''c'']\<rparr>" 1]
  by simp

text \<open>
  Claim C6 (navigation round trip). Entering a folder (a click on a Directory with the
  empty query, which appends its name) and then going back gives the state there was
  before, and going back with the empty navigation path changes nothing.
\<close>

theorem enter_back_roundtrip:
  "(type item = Directory \<and> searchQuery st = [] \<longrightarrow> goBack (handleItemClick item st) = st) \<and>
   (currentPath st = [] \<longrightarrow> goBack st = st)"
  by (simp add: goBack_def handleItemClick_def push_def pop_def)

theorem enter_back_roundtrip_witness:
  "type sub = Directory \<and> searchQuery (at_root\<lparr>currentPath := [''Economics'']\<rparr>) = [] \<and>
   currentPath (handleItemClick sub (at_root\<lparr>currentPath := [''Economics'']\<rparr>)) =
     [''Economics'', ''Sub''] \<and>
   goBack (handleItemClick sub (at_root\<lparr>currentPath := [''Economics'']\<rparr>)) =
     at_root\<lparr>currentPath := [''Economics'']\<rparr> \<and>
   currentPath at_root = [] \<and> goBack at_root = at_root"
proof -
  let ?st = "at_root\<lparr>currentPath := [''Economics'']\<rparr>"
  have d: "type sub = Directory" by (simp add: sub_def)
  have q: "searchQuery ?st = []" by (simp add: at_root_def)
  have e: "currentPath (handleItemClick sub ?st) = [''Economics'', ''Sub'']"
    using d q by (simp add: handleItemClick_def push_def sub_def)
  have r: "currentPath at_root = []" by (simp add: at_root_def)
  from enter_back_roundtrip [of sub ?st] enter_back_roundtrip [of sub at_root] d q e r
  show ?thesis by simp
qed

text \<open>
  Claim C10 (indices below \<open>-1\<close>). For an index \<open>i \<le> -2\<close>, \<open>navigateTo i\<close> leaves the
  navigation path without its last \<open>-(i + 1)\<close> segments, so \<open>navigateTo (-2)\<close> is
  \<open>goBack\<close>, and the result is the empty path exactly when \<open>-(i + 1)\<close> is at least the
  depth.
\<close>

theorem jumpTo_below_minus_one:
  assumes "i \<le> - 2"
  shows "currentPath (navigateTo i st) =
           take (length (currentPath st) - nat (- (i + 1))) (currentPath st) \<and>
         navigateTo (- 2) st = goBack st \<and>
         (currentPath (navigateTo i st) = [] \<longleftrightarrow> int (length (currentPath st)) \<le> - (i + 1))"
  using assms by (auto simp: navigateTo_def slice_0 goBack_def pop_def butlast_conv_take)

theorem jumpTo_below_minus_one_witness:
  "(- 3 :: int) \<le> - 2 \<and>
   currentPath (navigateTo (- 3) (at_root\<lparr>currentPath := [''a'', ''b'', ''c'']\<rparr>)) = [''a''] \<and>
   navigateTo (- 2) (at_root\<lparr>currentPath := [''a'', ''b'', ''c'']\<rparr>) =
     at_root\<lparr>currentPath := [''a'', ''b'']\<rparr> \<and>
   goBack (at_root\<lparr>currentPath := [''a'', ''b'', ''c'']\<rparr>) = at_root\<lparr>currentPath := [''a'', ''b'']\<rparr>"
proof -
  let ?st = "at_root\<lparr>currentPath := [''a'', ''b'', ''c'']\<rparr>"
  have i: "(- 3 :: int) \<le> - 2" by simp
  have g: "goBack ?st = at_root\<lparr>currentPath := [''a'', ''b'']\<rparr>"
    by (simp add: goBack_def pop_def)
  from jumpTo_below_minus_one [OF i, of ?st] i g show ?thesis by simp
qed

subsection \<open>The tree stays as loaded\<close>

lemma perform_rootFiles: "rootFiles (perform a st) = rootFiles st"
  by (cases a) (simp_all add: handleItemClick_def goBack_def navigateTo_def Let_def)

text \<open>
  Claim C9 (tree immutability). After any sequence of clicks (on any item), \<open>Back\<close> and
  \<open>JumpTo\<close> (with any index), \<open>rootFiles\<close> is what it was; what such a sequence changes
  is among the navigation path, the query and the two preview cells. Resolving and
  searching are the functions \<open>currentItems\<close>, \<open>filteredItems\<close> and \<open>searchRecursive\<close>,
  which read a state and return a list: they have no state to hand back, and the only
  array they write, \<open>results\<close>, is their own.
\<close>

theorem tree_immutable: "rootFiles (run as st) = rootFiles st"
  by (induction as arbitrary: st) (simp_all add: perform_rootFiles)

theorem tree_immutable_witness:
  "rootFiles (run [Click economics, Click sub, Back, Click book, JumpTo (- 1), JumpTo (- 5)]
               at_root) = archive \<and>
   run [Click economics, Click sub, Back, Click book, JumpTo (- 1), JumpTo (- 5)] at_root =
     at_root\<lparr>currentPdfSrc := ''./Files/Economics/book.pdf'', showPdfViewer := True\<rparr>"
proof -
  let ?as = "[Click economics, Click sub, Back, Click book, JumpTo (- 1), JumpTo (- 5)]"
  have e: "run ?as at_root =
      at_root\<lparr>currentPdfSrc := ''./Files/Economics/book.pdf'', showPdfViewer := True\<rparr>"
    by (simp add: handleItemClick_def goBack_def navigateTo_def slice_def push_def pop_def
        archive_defs)
  from tree_immutable [of ?as at_root] e show ?thesis by (simp add: at_root_def)
qed

end
